theory Spec2Isabelle
  imports Main "HOL-Library.Sublist"
begin

section \<open>The relational data model of \<open>app.py\<close>\<close>

text \<open>
  Every model class of \<open>app.py\<close> is a record, every table a list of rows in insertion
  order. Python column names that would clash between classes carry the class name as a
  prefix: \<open>User.id\<close> is \<open>user_id\<close>, \<open>Post.id\<close> is \<open>post_id\<close>, \<open>Post.user_id\<close> is
  \<open>post_user_id\<close>, \<open>Like.post_id\<close> is \<open>like_post_id\<close>, and so on. Nullable columns are
  options. Timestamps (\<open>db.func.now()\<close>) are natural numbers handed to each handler
  as the argument \<open>now\<close>.
\<close>

record user =
  user_id :: nat
  username :: string
  password_hash :: string
  bio :: "string option"
  profile_picture :: "string option"

record post =
  post_id :: nat
  image_url :: string
  caption :: "string option"
  post_user_id :: nat
  post_created_at :: nat

record comment =
  comment_id :: nat
  comment_text :: string
  comment_user_id :: nat
  comment_post_id :: nat
  comment_created_at :: nat

record like =
  like_id :: nat
  like_user_id :: nat
  like_post_id :: nat
  like_created_at :: nat

record follow =
  follower_id :: nat
  followed_id :: nat
  follow_timestamp :: nat

record conversation =
  conversation_id :: nat
  user1_id :: nat
  user2_id :: nat

record message =
  message_id :: nat
  message_conversation_id :: nat
  sender_id :: nat
  message_text :: string
  message_created_at :: nat

record db =
  users :: "user list"
  posts :: "post list"
  comments :: "comment list"
  likes :: "like list"
  follows :: "follow list"
  conversations :: "conversation list"
  messages :: "message list"

definition init_db :: db where
  "init_db = \<lparr>users = [], posts = [], comments = [], likes = [], follows = [],
     conversations = [], messages = []\<rparr>"

text \<open>
  The Flask session: the keys \<open>'user_id'\<close> and \<open>'username'\<close>, each present or absent.
\<close>

record session =
  sess_user_id :: "nat option"
  sess_username :: "string option"

definition anonymous :: session where
  "anonymous = \<lparr>sess_user_id = None, sess_username = None\<rparr>"

datatype http_method = GET | POST

text \<open>
  What a handler answers. Each constructor stands for one \<open>flash\<close>/\<open>redirect\<close>/
  \<open>render_template\<close> exit of a route; the names are those of the specification's error
  taxonomy where it has one.
\<close>

datatype outcome =
    Unauthenticated
  | NotFound
  | ServerError
  | RegisterForm
  | DuplicateUsername
  | Registered
  | LoginForm
  | InvalidCredentials
  | LoggedIn user
  | CreatePostForm
  | PostCreated
  | SelfFollowRejected
  | Followed
  | SelfUnfollowRejected
  | Unfollowed
  | EditProfileForm user
  | ProfileUpdated
  | Forbidden
  | EditPostForm post
  | PostUpdated
  | PostDeleted
  | EmptyComment
  | CommentAdded
  | Liked
  | Unliked
  | IndexPage "post list"
  | SearchResults "user list" "post list"
  | EmptyMessage conversation "message list"
  | MessageSent
  | ConversationPage conversation "message list"

subsection \<open>Queries\<close>

text \<open>
  An integer primary key is assigned by the database. The model takes the successor of
  the largest key in the table, which is fresh for the table as it stands.
\<close>

definition fresh_id :: "nat list \<Rightarrow> nat" where
  "fresh_id ids = Suc (fold max ids 0)"

definition find_user_by_username :: "db \<Rightarrow> string \<Rightarrow> user option" where
  "find_user_by_username s name = find (\<lambda>u. username u = name) (users s)"

definition get_user :: "db \<Rightarrow> nat \<Rightarrow> user option" where
  "get_user s i = find (\<lambda>u. user_id u = i) (users s)"

definition get_post :: "db \<Rightarrow> nat \<Rightarrow> post option" where
  "get_post s i = find (\<lambda>p. post_id p = i) (posts s)"

text \<open>\<open>load_logged_in_user\<close>: \<open>g.user\<close> is the row of the session's user id, or \<open>None\<close>.\<close>

definition load_logged_in_user :: "db \<Rightarrow> session \<Rightarrow> user option" where
  "load_logged_in_user s sess =
     (case sess_user_id sess of None \<Rightarrow> None | Some i \<Rightarrow> get_user s i)"

text \<open>\<open>ORDER BY created_at DESC\<close>; rows with equal timestamps come in no promised order.\<close>

definition order_desc :: "('a \<Rightarrow> nat) \<Rightarrow> 'a list \<Rightarrow> 'a list" where
  "order_desc k xs = rev (sort_key k xs)"

text \<open>
  \<open>paginate(page, per_page, error_out=False)\<close>: a page below 1 is read as page 1, and a
  page past the end is empty.
\<close>

definition paginate :: "nat \<Rightarrow> nat \<Rightarrow> 'a list \<Rightarrow> 'a list" where
  "paginate page per_page xs =
     (let p = (if page < 1 then 1 else page) in take per_page (drop ((p - 1) * per_page) xs))"

subsection \<open>Methods of \<open>User\<close>\<close>

definition is_following :: "db \<Rightarrow> user \<Rightarrow> user \<Rightarrow> bool" where
  "is_following s self usr =
     (find (\<lambda>f. follower_id f = user_id self \<and> followed_id f = user_id usr) (follows s) \<noteq> None)"

definition User_follow :: "db \<Rightarrow> nat \<Rightarrow> user \<Rightarrow> user \<Rightarrow> db" where
  "User_follow s now self usr =
     (if \<not> is_following s self usr
      then s\<lparr>follows := follows s @
             [\<lparr>follower_id = user_id self, followed_id = user_id usr, follow_timestamp = now\<rparr>]\<rparr>
      else s)"

text \<open>Deleting a \<open>Follow\<close> row deletes by its primary key, the pair of ids.\<close>

definition User_unfollow :: "db \<Rightarrow> user \<Rightarrow> user \<Rightarrow> db" where
  "User_unfollow s self usr =
     (case find (\<lambda>f. follower_id f = user_id self \<and> followed_id f = user_id usr) (follows s) of
        Some f \<Rightarrow> s\<lparr>follows := filter (\<lambda>g. \<not> (follower_id g = follower_id f \<and>
                                               followed_id g = followed_id f)) (follows s)\<rparr>
      | None \<Rightarrow> s)"

text \<open>
  \<open>get_followed_posts\<close>: the join of \<open>Post\<close> with \<open>Follow\<close> on the author, restricted to
  the edges leaving \<open>self\<close>, in SQL \<open>UNION\<close> (which drops duplicate rows) with the own
  posts, newest first.
\<close>

definition get_followed_posts :: "db \<Rightarrow> user \<Rightarrow> post list" where
  "get_followed_posts s self =
     (let followed = concat (map (\<lambda>p. map (\<lambda>f. p)
              (filter (\<lambda>f. followed_id f = post_user_id p \<and> follower_id f = user_id self)
                 (follows s))) (posts s));
          own = filter (\<lambda>p. post_user_id p = user_id self) (posts s)
      in order_desc post_created_at (remdups (followed @ own)))"

subsection \<open>Case-insensitive \<open>LIKE\<close>\<close>

text \<open>
  \<open>column.ilike(pattern)\<close> is evaluated by the database. In a pattern \<open>%\<close> stands for any
  run of characters and \<open>_\<close> for any one character; the escape character, where the
  backend has one, is the parameter \<open>esc\<close> and makes the character after it literal.
  Letters are compared after ASCII lower-casing.
\<close>

definition lower_char :: "char \<Rightarrow> char" where
  "lower_char c =
     (let n = (of_char c :: nat) in if 65 \<le> n \<and> n \<le> 90 then char_of (n + 32) else c)"

fun like_match :: "char option \<Rightarrow> string \<Rightarrow> string \<Rightarrow> bool" where
  "like_match esc [] s = (s = [])"
| "like_match esc (p # ps) [] =
     (if Some p = esc then False
      else if p = CHR ''%'' then like_match esc ps []
      else False)"
| "like_match esc (p # ps) (c # cs) =
     (if Some p = esc then (case ps of [] \<Rightarrow> False | q # qs \<Rightarrow> c = q \<and> like_match esc qs cs)
      else if p = CHR ''%'' then like_match esc ps (c # cs) \<or> like_match esc (p # ps) cs
      else if p = CHR ''_'' then like_match esc ps cs
      else p = c \<and> like_match esc ps cs)"

definition ilike :: "char option \<Rightarrow> string \<Rightarrow> string \<Rightarrow> bool" where
  "ilike esc s pat = like_match esc (map lower_char pat) (map lower_char s)"

section \<open>The routes\<close>

text \<open>
  A handler takes the database, the session of the request and the fields of the form it
  reads, and returns the database after its commits together with its outcome. The form
  fields a handler reads are taken to be present in the request.
\<close>

definition index :: "db \<Rightarrow> session \<Rightarrow> nat \<Rightarrow> outcome" where
  "index s sess page =
     (case sess_user_id sess of
        None \<Rightarrow> Unauthenticated
      | Some uid \<Rightarrow>
          (let per_page = 10
           in IndexPage (paginate page per_page (order_desc post_created_at (posts s)))))"

text \<open>
  \<open>generate_password_hash\<close> and \<open>check_password_hash\<close> belong to werkzeug; they are the
  parameters \<open>gen_hash\<close> and \<open>verify\<close> (stored hash first, password second).
\<close>

definition register :: "db \<Rightarrow> (string \<Rightarrow> string) \<Rightarrow> http_method \<Rightarrow> string \<Rightarrow> string
    \<Rightarrow> db \<times> outcome" where
  "register s gen_hash m name password =
     (case m of
        GET \<Rightarrow> (s, RegisterForm)
      | POST \<Rightarrow>
          (case find_user_by_username s name of
             Some existing_user \<Rightarrow> (s, DuplicateUsername)
           | None \<Rightarrow>
               (s\<lparr>users := users s @
                   [\<lparr>user_id = fresh_id (map user_id (users s)), username = name,
                     password_hash = gen_hash password, bio = None,
                     profile_picture = Some ''/static/images/default_profile.png''\<rparr>]\<rparr>,
                Registered)))"

definition login :: "db \<Rightarrow> (string \<Rightarrow> string \<Rightarrow> bool) \<Rightarrow> session \<Rightarrow> http_method \<Rightarrow> string
    \<Rightarrow> string \<Rightarrow> session \<times> outcome" where
  "login s verify sess m name password =
     (case m of
        GET \<Rightarrow> (sess, LoginForm)
      | POST \<Rightarrow>
          (case find_user_by_username s name of
             Some usr \<Rightarrow>
               (if verify (password_hash usr) password
                then (sess\<lparr>sess_user_id := Some (user_id usr),
                           sess_username := Some (username usr)\<rparr>, LoggedIn usr)
                else (sess, InvalidCredentials))
           | None \<Rightarrow> (sess, InvalidCredentials)))"

definition create_post :: "db \<Rightarrow> session \<Rightarrow> nat \<Rightarrow> http_method \<Rightarrow> string \<Rightarrow> string
    \<Rightarrow> db \<times> outcome" where
  "create_post s sess now m url cap =
     (case sess_user_id sess of
        None \<Rightarrow> (s, Unauthenticated)
      | Some uid \<Rightarrow>
          (case m of
             GET \<Rightarrow> (s, CreatePostForm)
           | POST \<Rightarrow>
               (s\<lparr>posts := posts s @
                   [\<lparr>post_id = fresh_id (map post_id (posts s)), image_url = url,
                     caption = Some cap, post_user_id = uid, post_created_at = now\<rparr>]\<rparr>,
                PostCreated)))"

text \<open>
  \<open>g.user\<close> is \<open>None\<close> when the session names a user id with no row; calling a method
  on it raises, which is the outcome \<open>ServerError\<close>.
\<close>

definition follow_user :: "db \<Rightarrow> session \<Rightarrow> nat \<Rightarrow> string \<Rightarrow> db \<times> outcome" where
  "follow_user s sess now name =
     (case sess_user_id sess of
        None \<Rightarrow> (s, Unauthenticated)
      | Some uid \<Rightarrow>
          (case find_user_by_username s name of
             None \<Rightarrow> (s, NotFound)
           | Some user_to_follow \<Rightarrow>
               (if user_id user_to_follow = uid then (s, SelfFollowRejected)
                else (case load_logged_in_user s sess of
                        None \<Rightarrow> (s, ServerError)
                      | Some g_user \<Rightarrow> (User_follow s now g_user user_to_follow, Followed)))))"

definition unfollow_user :: "db \<Rightarrow> session \<Rightarrow> string \<Rightarrow> db \<times> outcome" where
  "unfollow_user s sess name =
     (case sess_user_id sess of
        None \<Rightarrow> (s, Unauthenticated)
      | Some uid \<Rightarrow>
          (case find_user_by_username s name of
             None \<Rightarrow> (s, NotFound)
           | Some user_to_unfollow \<Rightarrow>
               (if user_id user_to_unfollow = uid then (s, SelfUnfollowRejected)
                else (case load_logged_in_user s sess of
                        None \<Rightarrow> (s, ServerError)
                      | Some g_user \<Rightarrow> (User_unfollow s g_user user_to_unfollow, Unfollowed)))))"

text \<open>
  Assigning to \<open>user.bio\<close> and \<open>user.profile_picture\<close> and committing updates the row of
  that primary key. An empty \<open>profile_picture\<close> field is falsy and leaves the column.
\<close>

definition edit_profile :: "db \<Rightarrow> session \<Rightarrow> http_method \<Rightarrow> string \<Rightarrow> string \<Rightarrow> db \<times> outcome" where
  "edit_profile s sess m new_bio new_profile_picture =
     (case sess_user_id sess of
        None \<Rightarrow> (s, Unauthenticated)
      | Some uid \<Rightarrow>
          (case m of
             POST \<Rightarrow>
               (case load_logged_in_user s sess of
                  None \<Rightarrow> (s, ServerError)
                | Some usr \<Rightarrow>
                    (let usr1 = usr\<lparr>bio := Some new_bio\<rparr>;
                         usr2 = (if new_profile_picture \<noteq> []
                                 then usr1\<lparr>profile_picture := Some new_profile_picture\<rparr>
                                 else usr1)
                     in (s\<lparr>users := map (\<lambda>u. if user_id u = user_id usr then usr2 else u)
                                         (users s)\<rparr>, ProfileUpdated)))
           | GET \<Rightarrow>
               (case load_logged_in_user s sess of
                  None \<Rightarrow> (s, ServerError)
                | Some usr \<Rightarrow> (s, EditProfileForm usr))))"

definition edit_post :: "db \<Rightarrow> session \<Rightarrow> http_method \<Rightarrow> nat \<Rightarrow> string \<Rightarrow> string \<Rightarrow> db \<times> outcome" where
  "edit_post s sess m pid url cap =
     (case sess_user_id sess of
        None \<Rightarrow> (s, Unauthenticated)
      | Some uid \<Rightarrow>
          (case get_post s pid of
             None \<Rightarrow> (s, NotFound)
           | Some pst \<Rightarrow>
               (if post_user_id pst \<noteq> uid then (s, Forbidden)
                else (case m of
                        POST \<Rightarrow>
                          (s\<lparr>posts := map (\<lambda>p. if post_id p = post_id pst
                                                then pst\<lparr>image_url := url, caption := Some cap\<rparr>
                                                else p) (posts s)\<rparr>, PostUpdated)
                      | GET \<Rightarrow> (s, EditPostForm pst)))))"

text \<open>
  Deleting a post deletes its comments and likes with it
  (\<open>cascade="all, delete-orphan"\<close> on \<open>Post.comments\<close> and \<open>Post.likes\<close>).
\<close>

definition delete_post :: "db \<Rightarrow> session \<Rightarrow> nat \<Rightarrow> db \<times> outcome" where
  "delete_post s sess pid =
     (case sess_user_id sess of
        None \<Rightarrow> (s, Unauthenticated)
      | Some uid \<Rightarrow>
          (case get_post s pid of
             None \<Rightarrow> (s, NotFound)
           | Some pst \<Rightarrow>
               (if post_user_id pst \<noteq> uid then (s, Forbidden)
                else (s\<lparr>posts := filter (\<lambda>p. post_id p \<noteq> post_id pst) (posts s),
                        comments := filter (\<lambda>c. comment_post_id c \<noteq> post_id pst) (comments s),
                        likes := filter (\<lambda>l. like_post_id l \<noteq> post_id pst) (likes s)\<rparr>,
                      PostDeleted))))"

definition add_comment :: "db \<Rightarrow> session \<Rightarrow> nat \<Rightarrow> nat \<Rightarrow> string \<Rightarrow> db \<times> outcome" where
  "add_comment s sess now pid txt =
     (case sess_user_id sess of
        None \<Rightarrow> (s, Unauthenticated)
      | Some uid \<Rightarrow>
          (case get_post s pid of
             None \<Rightarrow> (s, NotFound)
           | Some pst \<Rightarrow>
               (if txt = [] then (s, EmptyComment)
                else (s\<lparr>comments := comments s @
                        [\<lparr>comment_id = fresh_id (map comment_id (comments s)), comment_text = txt,
                          comment_user_id = uid, comment_post_id = post_id pst,
                          comment_created_at = now\<rparr>]\<rparr>, CommentAdded))))"

definition like_post :: "db \<Rightarrow> session \<Rightarrow> nat \<Rightarrow> nat \<Rightarrow> db \<times> outcome" where
  "like_post s sess now pid =
     (case sess_user_id sess of
        None \<Rightarrow> (s, Unauthenticated)
      | Some uid \<Rightarrow>
          (case get_post s pid of
             None \<Rightarrow> (s, NotFound)
           | Some pst \<Rightarrow>
               (case find (\<lambda>l. like_user_id l = uid \<and> like_post_id l = post_id pst) (likes s) of
                  Some existing_like \<Rightarrow>
                    (s\<lparr>likes := filter (\<lambda>l. like_id l \<noteq> like_id existing_like) (likes s)\<rparr>,
                     Unliked)
                | None \<Rightarrow>
                    (s\<lparr>likes := likes s @
                        [\<lparr>like_id = fresh_id (map like_id (likes s)), like_user_id = uid,
                          like_post_id = post_id pst, like_created_at = now\<rparr>]\<rparr>, Liked))))"

text \<open>
  \<open>search\<close> does not look at the session. With an empty query it renders \<open>index.html\<close>
  with no posts (and passes no users).
\<close>

definition search :: "db \<Rightarrow> char option \<Rightarrow> string \<Rightarrow> outcome" where
  "search s esc query =
     (if query = [] then IndexPage []
      else SearchResults
             (filter (\<lambda>u. ilike esc (username u) (''%'' @ query @ ''%'')) (users s))
             (order_desc post_created_at
                (filter (\<lambda>p. case caption p of None \<Rightarrow> False
                              | Some c \<Rightarrow> ilike esc c (''%'' @ query @ ''%'')) (posts s))))"

text \<open>
  \<open>conversation\<close>: find the conversation of the two users in either order or create it
  (and commit), then, on POST, add the message unless its text is empty.
\<close>

definition find_conversation :: "db \<Rightarrow> nat \<Rightarrow> nat \<Rightarrow> conversation option" where
  "find_conversation s current_user_id other_user_id =
     find (\<lambda>c. (user1_id c = current_user_id \<and> user2_id c = other_user_id) \<or>
               (user1_id c = other_user_id \<and> user2_id c = current_user_id)) (conversations s)"

definition find_or_create :: "db \<Rightarrow> nat \<Rightarrow> nat \<Rightarrow> db \<times> conversation" where
  "find_or_create s current_user_id other_user_id =
     (case find_conversation s current_user_id other_user_id of
        Some conv \<Rightarrow> (s, conv)
      | None \<Rightarrow>
          (let conv = \<lparr>conversation_id = fresh_id (map conversation_id (conversations s)),
                       user1_id = current_user_id, user2_id = other_user_id\<rparr>
           in (s\<lparr>conversations := conversations s @ [conv]\<rparr>, conv)))"

definition list_messages :: "db \<Rightarrow> conversation \<Rightarrow> message list" where
  "list_messages s conv =
     sort_key message_created_at
       (filter (\<lambda>m. message_conversation_id m = conversation_id conv) (messages s))"

definition conversation :: "db \<Rightarrow> session \<Rightarrow> nat \<Rightarrow> http_method \<Rightarrow> nat \<Rightarrow> string
    \<Rightarrow> db \<times> outcome" where
  "conversation s sess now m other_user_id txt =
     (case sess_user_id sess of
        None \<Rightarrow> (s, Unauthenticated)
      | Some current_user_id \<Rightarrow>
          (case get_user s other_user_id of
             None \<Rightarrow> (s, NotFound)
           | Some other_user \<Rightarrow>
               (let (s1, conv) = find_or_create s current_user_id other_user_id
                in (case m of
                      POST \<Rightarrow>
                        (if txt = [] then (s1, EmptyMessage conv (list_messages s1 conv))
                         else (s1\<lparr>messages := messages s1 @
                                 [\<lparr>message_id = fresh_id (map message_id (messages s1)),
                                   message_conversation_id = conversation_id conv,
                                   sender_id = current_user_id, message_text = txt,
                                   message_created_at = now\<rparr>]\<rparr>, MessageSent))
                    | GET \<Rightarrow> (s1, ConversationPage conv (list_messages s1 conv))))))"

section \<open>Reachable databases\<close>

text \<open>
  The databases the application can be in: the empty one, and every database a
  committing route produces from a reachable one, with any session, form and clock. The
  routes left out (\<open>index\<close>, \<open>login\<close>, \<open>logout\<close>, \<open>profile\<close>, \<open>search\<close>, \<open>messages\<close>,
  \<open>cat_fact\<close>) write nothing.
\<close>

inductive reachable :: "db \<Rightarrow> bool" where
  r_init: "reachable init_db"
| r_register: "reachable s \<Longrightarrow> reachable (fst (register s gen_hash m name password))"
| r_create_post: "reachable s \<Longrightarrow> reachable (fst (create_post s sess now m url cap))"
| r_follow: "reachable s \<Longrightarrow> reachable (fst (follow_user s sess now name))"
| r_unfollow: "reachable s \<Longrightarrow> reachable (fst (unfollow_user s sess name))"
| r_edit_profile: "reachable s \<Longrightarrow> reachable (fst (edit_profile s sess m b pic))"
| r_edit_post: "reachable s \<Longrightarrow> reachable (fst (edit_post s sess m pid url cap))"
| r_delete_post: "reachable s \<Longrightarrow> reachable (fst (delete_post s sess pid))"
| r_add_comment: "reachable s \<Longrightarrow> reachable (fst (add_comment s sess now pid txt))"
| r_like_post: "reachable s \<Longrightarrow> reachable (fst (like_post s sess now pid))"
| r_conversation: "reachable s \<Longrightarrow> reachable (fst (conversation s sess now m other txt))"

section \<open>A small database to evaluate on\<close>

definition alice :: user where
  "alice = \<lparr>user_id = 1, username = ''alice'', password_hash = ''hash-a'', bio = None,
     profile_picture = Some ''/static/images/default_profile.png''\<rparr>"

definition bob :: user where
  "bob = \<lparr>user_id = 2, username = ''bob'', password_hash = ''hash-b'', bio = None,
     profile_picture = Some ''/static/images/default_profile.png''\<rparr>"

definition carol :: user where
  "carol = \<lparr>user_id = 3, username = ''Carol'', password_hash = ''hash-c'', bio = None,
     profile_picture = Some ''/static/images/default_profile.png''\<rparr>"

definition session_of :: "user \<Rightarrow> session" where
  "session_of u = \<lparr>sess_user_id = Some (user_id u), sess_username = Some (username u)\<rparr>"

definition post1 :: post where
  "post1 = \<lparr>post_id = 1, image_url = ''a.png'', caption = Some ''Cats are great'',
     post_user_id = 2, post_created_at = 1\<rparr>"

definition post2 :: post where
  "post2 = \<lparr>post_id = 2, image_url = ''b.png'', caption = Some ''dogs'',
     post_user_id = 3, post_created_at = 2\<rparr>"

definition post3 :: post where
  "post3 = \<lparr>post_id = 3, image_url = ''c.png'', caption = None,
     post_user_id = 1, post_created_at = 3\<rparr>"

text \<open>alice follows bob; nobody follows carol.\<close>

definition example_db :: db where
  "example_db = init_db\<lparr>users := [alice, bob, carol], posts := [post1, post2, post3],
     follows := [\<lparr>follower_id = 1, followed_id = 2, follow_timestamp = 1\<rparr>]\<rparr>"

definition example_verify :: "string \<Rightarrow> string \<Rightarrow> bool" where
  "example_verify h password = (h = ''hash-'' @ password)"

section \<open>Vocabulary of the properties\<close>

text \<open>The primary key of a \<open>Follow\<close> row, and the rows of one ordered pair.\<close>

definition follow_key :: "follow \<Rightarrow> nat \<times> nat" where
  "follow_key f = (follower_id f, followed_id f)"

definition edges :: "db \<Rightarrow> nat \<Rightarrow> nat \<Rightarrow> follow list" where
  "edges s a b = filter (\<lambda>f. follower_id f = a \<and> followed_id f = b) (follows s)"

text \<open>The \<open>Like\<close> rows of one user on one post; a run of toggles, one per timestamp.\<close>

definition like_rows :: "db \<Rightarrow> nat \<Rightarrow> nat \<Rightarrow> like list" where
  "like_rows s u p = filter (\<lambda>l. like_user_id l = u \<and> like_post_id l = p) (likes s)"

definition toggle_like :: "db \<Rightarrow> session \<Rightarrow> nat \<Rightarrow> nat list \<Rightarrow> db" where
  "toggle_like s sess pid ts = fold (\<lambda>now s'. fst (like_post s' sess now pid)) ts s"

definition like_unique :: "db \<Rightarrow> bool" where
  "like_unique s = (\<forall>u p. length (like_rows s u p) \<le> 1)"

text \<open>The conversation rows that join two users, in either order.\<close>

definition conv_rows :: "db \<Rightarrow> nat \<Rightarrow> nat \<Rightarrow> conversation list" where
  "conv_rows s a b =
     filter (\<lambda>c. (user1_id c = a \<and> user2_id c = b) \<or> (user1_id c = b \<and> user2_id c = a))
       (conversations s)"

definition conv_unique :: "db \<Rightarrow> bool" where
  "conv_unique s = (\<forall>a b. length (conv_rows s a b) \<le> 1)"

text \<open>
  Containment as a substring with letter case ignored; a query with no pattern
  character; the lists a page shows.
\<close>

definition contains_ci :: "string \<Rightarrow> string \<Rightarrow> bool" where
  "contains_ci q s = sublist (map lower_char q) (map lower_char s)"

definition literal :: "char option \<Rightarrow> string \<Rightarrow> bool" where
  "literal esc q =
     list_all (\<lambda>c. c \<noteq> CHR ''%'' \<and> c \<noteq> CHR ''_'' \<and> Some c \<noteq> esc) (map lower_char q)"

fun result_users :: "outcome \<Rightarrow> user list" where
  "result_users (SearchResults us ps) = us"
| "result_users _ = []"

fun result_posts :: "outcome \<Rightarrow> post list" where
  "result_posts (SearchResults us ps) = ps"
| "result_posts (IndexPage ps) = ps"
| "result_posts _ = []"

text \<open>
  The keys the schema declares unique on \<open>User\<close> and \<open>Follow\<close>: the user id, the
  username, and the pair of ids of a follow edge.
\<close>

definition keys_unique :: "db \<Rightarrow> bool" where
  "keys_unique s \<longleftrightarrow>
     distinct (map user_id (users s)) \<and> distinct (map username (users s)) \<and>
     distinct (map follow_key (follows s))"

section \<open>Lists and keys\<close>

lemma find_Some_mem: "find P xs = Some x \<Longrightarrow> x \<in> set xs \<and> P x"
  by (induction xs) (auto split: if_splits)

lemma find_None_filter: "find P xs = None \<longleftrightarrow> filter P xs = []"
  by (induction xs) auto

lemma distinct_key_filter_le1:
  "distinct (map k xs) \<Longrightarrow> length (filter (\<lambda>x. k x = v) xs) \<le> Suc 0"
proof (induction xs)
  case Nil
  then show ?case by simp
next
  case (Cons x xs)
  show ?case
  proof (cases "k x = v")
    case True
    have "k y \<noteq> v" if "y \<in> set xs" for y
      using that Cons.prems True by (metis distinct.simps(2) image_eqI list.simps(9) set_map)
    then have "filter (\<lambda>x. k x = v) xs = []"
      by (simp add: filter_empty_conv)
    with True show ?thesis by simp
  next
    case False
    with Cons show ?thesis by simp
  qed
qed

lemma distinct_key_find:
  "distinct (map k xs) \<Longrightarrow> x \<in> set xs \<Longrightarrow> find (\<lambda>y. k y = k x) xs = Some x"
  by (induction xs) (auto simp: image_iff)

lemma find_map_update:
  "find (\<lambda>x. k x = i) xs = Some u \<Longrightarrow> k v = i \<Longrightarrow>
   find (\<lambda>x. k x = i) (map (\<lambda>x. if k x = i then v else x) xs) = Some v"
  by (induction xs) (auto split: if_splits)


lemma fold_max_ge: "(a::nat) \<le> fold max ids a \<and> (\<forall>i\<in>set ids. i \<le> fold max ids a)"
proof (induction ids arbitrary: a)
  case Nil
  then show ?case by simp
next
  case (Cons x xs)
  from Cons.IH [of "max x a"] show ?case by auto
qed

lemma fresh_id_fresh: "i \<in> set ids \<Longrightarrow> i < fresh_id ids"
  using fold_max_ge [of 0 ids] by (auto simp: fresh_id_def)

lemma find_append_new:
  "filter P xs = [] \<Longrightarrow> P x \<Longrightarrow> find P (xs @ [x]) = Some x"
  by (induction xs) (auto split: if_splits)

lemma length_filter_filter: "length (filter (\<lambda>x. Q x \<and> P x) xs) \<le> length (filter P xs)"
  by (induction xs) auto

lemma logged_in_user_id:
  assumes "load_logged_in_user s sess = Some u"
  shows "sess_user_id sess = Some (user_id u) \<and> get_user s (user_id u) = Some u"
proof -
  from assms obtain i where i: "sess_user_id sess = Some i" "get_user s i = Some u"
    by (auto simp: load_logged_in_user_def split: option.splits)
  then have "user_id u = i" by (auto simp: get_user_def dest: find_Some_mem)
  with i show ?thesis by simp
qed

section \<open>Following\<close>

text \<open>
  C6. A logged-in user who posts to \<open>/follow/<username>\<close> with their own username is
  answered \<open>SelfFollowRejected\<close> (the flash "You cannot follow yourself!"), and the
  database, so the set of follow edges, is what it was.
\<close>

theorem follow_self_rejected:
  assumes "sess_user_id sess = Some u"
    and "find_user_by_username s name = Some usr"
    and "user_id usr = u"
  shows "follow_user s sess now name = (s, SelfFollowRejected)"
  using assms by (simp add: follow_user_def)

theorem follow_self_rejected_witness:
  "sess_user_id (session_of alice) = Some 1 \<and>
   find_user_by_username example_db ''alice'' = Some alice \<and> user_id alice = 1 \<and>
   follow_user example_db (session_of alice) 9 ''alice'' = (example_db, SelfFollowRejected)"
proof -
  have a: "sess_user_id (session_of alice) = Some 1" by (simp add: session_of_def alice_def)
  have b: "find_user_by_username example_db ''alice'' = Some alice"
    by (simp add: find_user_by_username_def example_db_def alice_def)
  have c: "user_id alice = 1" by (simp add: alice_def)
  show ?thesis using a b c follow_self_rejected [OF a b c, of 9] by simp
qed

lemma edges_key: "edges s a b = filter (\<lambda>f. follow_key f = (a, b)) (follows s)"
  by (simp add: edges_def follow_key_def)

lemma is_following_edges: "is_following s ua ub \<longleftrightarrow> edges s (user_id ua) (user_id ub) \<noteq> []"
  by (simp add: is_following_def edges_def find_None_filter)

lemma User_follow_edges:
  assumes "distinct (map follow_key (follows s))"
  shows "length (edges (User_follow s now ua ub) (user_id ua) (user_id ub)) = 1"
proof (cases "is_following s ua ub")
  case True
  then have "edges s (user_id ua) (user_id ub) \<noteq> []" by (simp add: is_following_edges)
  moreover have "length (edges s (user_id ua) (user_id ub)) \<le> Suc 0"
    unfolding edges_key using assms by (rule distinct_key_filter_le1)
  ultimately have "length (edges s (user_id ua) (user_id ub)) = 1"
    by (cases "edges s (user_id ua) (user_id ub)") auto
  with True show ?thesis by (simp add: User_follow_def)
next
  case False
  then have "edges s (user_id ua) (user_id ub) = []" by (simp add: is_following_edges)
  with False show ?thesis by (simp add: User_follow_def edges_def)
qed

lemma User_follow_following: "is_following (User_follow s now ua ub) ua ub"
  by (auto simp: User_follow_def is_following_edges edges_def)

lemma User_follow_idem: "User_follow (User_follow s t1 ua ub) t2 ua ub = User_follow s t1 ua ub"
  using User_follow_following [of s t1 ua ub]
  by (simp add: User_follow_def [of "User_follow s t1 ua ub"])

lemma User_follow_users: "users (User_follow s now ua ub) = users s"
  by (simp add: User_follow_def)

lemma follow_user_ok:
  assumes "load_logged_in_user s sess = Some ua"
    and "find_user_by_username s name = Some ub"
    and "user_id ub \<noteq> user_id ua"
  shows "follow_user s sess now name = (User_follow s now ua ub, Followed)"
  using assms logged_in_user_id [OF assms(1)] by (simp add: follow_user_def)

lemma unfollow_user_ok:
  assumes "load_logged_in_user s sess = Some ua"
    and "find_user_by_username s name = Some ub"
    and "user_id ub \<noteq> user_id ua"
  shows "unfollow_user s sess name = (User_unfollow s ua ub, Unfollowed)"
  using assms logged_in_user_id [OF assms(1)] by (simp add: unfollow_user_def)

text \<open>
  C7. Let a logged-in user \<open>ua\<close> post to \<open>/follow/<name>\<close> twice, where \<open>name\<close> is the
  username of another user \<open>ub\<close>, in a database whose \<open>Follow\<close> table respects its
  primary key. Both requests answer \<open>Followed\<close>, the second leaves the database as the
  first left it, and there is exactly one edge from \<open>ua\<close> to \<open>ub\<close>. And when there is no
  such edge, \<open>/unfollow/<name>\<close> answers \<open>Unfollowed\<close> and changes nothing.
\<close>

theorem follow_twice_unfollow_absent:
  assumes "load_logged_in_user s sess = Some ua"
    and "find_user_by_username s name = Some ub"
    and "user_id ub \<noteq> user_id ua"
    and "distinct (map follow_key (follows s))"
  shows "snd (follow_user s sess t1 name) = Followed \<and>
         follow_user (fst (follow_user s sess t1 name)) sess t2 name =
           (fst (follow_user s sess t1 name), Followed) \<and>
         length (edges (fst (follow_user s sess t1 name)) (user_id ua) (user_id ub)) = 1 \<and>
         (edges s (user_id ua) (user_id ub) = [] \<longrightarrow>
            unfollow_user s sess name = (s, Unfollowed))"
proof -
  let ?s1 = "User_follow s t1 ua ub"
  have 1: "follow_user s sess t1 name = (?s1, Followed)"
    using assms(1-3) by (rule follow_user_ok)
  have l: "load_logged_in_user ?s1 sess = Some ua"
    using assms(1)
    by (simp add: load_logged_in_user_def get_user_def User_follow_users split: option.splits)
  have f: "find_user_by_username ?s1 name = Some ub"
    using assms(2) by (simp add: find_user_by_username_def User_follow_users)
  have 2: "follow_user ?s1 sess t2 name = (?s1, Followed)"
    using follow_user_ok [OF l f assms(3), of t2] by (simp add: User_follow_idem)
  have 3: "length (edges ?s1 (user_id ua) (user_id ub)) = 1"
    using assms(4) by (rule User_follow_edges)
  have 4: "unfollow_user s sess name = (s, Unfollowed)"
    if "edges s (user_id ua) (user_id ub) = []"
  proof -
    from that have "find (\<lambda>f. follower_id f = user_id ua \<and> followed_id f = user_id ub)
        (follows s) = None"
      by (simp add: find_None_filter edges_def)
    then have "User_unfollow s ua ub = s" by (simp add: User_unfollow_def)
    with unfollow_user_ok [OF assms(1-3)] show ?thesis by simp
  qed
  from 1 2 3 4 show ?thesis by simp
qed

theorem follow_twice_unfollow_absent_witness:
  "load_logged_in_user example_db (session_of alice) = Some alice \<and>
   find_user_by_username example_db ''Carol'' = Some carol \<and>
   user_id carol \<noteq> user_id alice \<and>
   distinct (map follow_key (follows example_db)) \<and>
   snd (follow_user example_db (session_of alice) 8 ''Carol'') = Followed \<and>
   follow_user (fst (follow_user example_db (session_of alice) 8 ''Carol''))
       (session_of alice) 9 ''Carol'' =
     (fst (follow_user example_db (session_of alice) 8 ''Carol''), Followed) \<and>
   length (edges (fst (follow_user example_db (session_of alice) 8 ''Carol'')) 1 3) = 1 \<and>
   unfollow_user example_db (session_of alice) ''Carol'' = (example_db, Unfollowed)"
proof -
  have a: "load_logged_in_user example_db (session_of alice) = Some alice"
    by (simp add: load_logged_in_user_def get_user_def session_of_def example_db_def alice_def)
  have b: "find_user_by_username example_db ''Carol'' = Some carol"
    by (simp add: find_user_by_username_def example_db_def alice_def bob_def carol_def)
  have c: "user_id carol \<noteq> user_id alice" by (simp add: alice_def carol_def)
  have d: "distinct (map follow_key (follows example_db))"
    by (simp add: example_db_def follow_key_def)
  have e: "edges example_db (user_id alice) (user_id carol) = []"
    by (simp add: edges_def example_db_def alice_def carol_def)
  have i: "user_id alice = 1" "user_id carol = 3" by (simp_all add: alice_def carol_def)
  show ?thesis
    using a b c d e follow_twice_unfollow_absent [OF a b c d, of 8 9] unfolding i by simp
qed

section \<open>Profile\<close>

text \<open>
  C10. For a logged-in user \<open>u\<close>, a POST to \<open>/edit_profile\<close> answers \<open>ProfileUpdated\<close>
  and leaves in the user's row the submitted bio, the submitted picture when that field
  is not empty and the old picture when it is, and every other column (id, username,
  password hash) as it was; no other table changes.
\<close>

theorem edit_profile_frame:
  assumes "load_logged_in_user s sess = Some u"
  shows "snd (edit_profile s sess POST b pic) = ProfileUpdated \<and>
         get_user (fst (edit_profile s sess POST b pic)) (user_id u) =
           Some (u\<lparr>bio := Some b,
                   profile_picture := (if pic = [] then profile_picture u else Some pic)\<rparr>) \<and>
         fst (edit_profile s sess POST b pic) =
           s\<lparr>users := users (fst (edit_profile s sess POST b pic))\<rparr>"
proof -
  from logged_in_user_id [OF assms]
  have i: "sess_user_id sess = Some (user_id u)" "get_user s (user_id u) = Some u"
    by simp_all
  let ?u = "u\<lparr>bio := Some b,
               profile_picture := (if pic = [] then profile_picture u else Some pic)\<rparr>"
  have e: "edit_profile s sess POST b pic =
      (s\<lparr>users := map (\<lambda>x. if user_id x = user_id u then ?u else x) (users s)\<rparr>,
       ProfileUpdated)"
    using i assms by (simp add: edit_profile_def Let_def)
  have "find (\<lambda>x. user_id x = user_id u)
          (map (\<lambda>x. if user_id x = user_id u then ?u else x) (users s)) = Some ?u"
    using i(2) by (intro find_map_update [where u = u]) (simp_all add: get_user_def)
  with e show ?thesis by (simp add: get_user_def)
qed

theorem edit_profile_frame_witness:
  "load_logged_in_user example_db (session_of alice) = Some alice \<and>
   get_user (fst (edit_profile example_db (session_of alice) POST ''hello'' [])) 1 =
     Some \<lparr>user_id = 1, username = ''alice'', password_hash = ''hash-a'',
            bio = Some ''hello'',
            profile_picture = Some ''/static/images/default_profile.png''\<rparr> \<and>
   get_user (fst (edit_profile example_db (session_of alice) POST ''hello'' ''me.png'')) 1 =
     Some \<lparr>user_id = 1, username = ''alice'', password_hash = ''hash-a'',
            bio = Some ''hello'', profile_picture = Some ''me.png''\<rparr>"
proof -
  have a: "load_logged_in_user example_db (session_of alice) = Some alice"
    by (simp add: load_logged_in_user_def get_user_def session_of_def example_db_def alice_def)
  show ?thesis
    using a edit_profile_frame [OF a, of "''hello''" "[]"]
      edit_profile_frame [OF a, of "''hello''" "''me.png''"]
    by (simp add: alice_def)
qed

section \<open>Logging in\<close>

lemma login_unknown:
  "find_user_by_username s name = None \<Longrightarrow>
   login s verify sess POST name pw = (sess, InvalidCredentials)"
  by (simp add: login_def)

lemma login_known:
  "find_user_by_username s name = Some w \<Longrightarrow>
   login s verify sess POST name pw =
     (if verify (password_hash w) pw
      then (sess\<lparr>sess_user_id := Some (user_id w), sess_username := Some (username w)\<rparr>,
            LoggedIn w)
      else (sess, InvalidCredentials))"
  by (simp add: login_def)

text \<open>
  C9. With usernames unique (the column is declared \<open>unique=True\<close>), a POST to \<open>/login\<close>
  answers \<open>LoggedIn u\<close> exactly for the user \<open>u\<close> of that username whose stored hash the
  password verifies against. When there is no such user, whether because the username is
  unknown or because the password is wrong, the answer is the one value
  \<open>InvalidCredentials\<close> and the session is left as it was.
\<close>

theorem login_authenticates:
  assumes "distinct (map username (users s))"
  shows "(snd (login s verify sess POST name pw) = LoggedIn u \<longleftrightarrow>
            u \<in> set (users s) \<and> username u = name \<and> verify (password_hash u) pw) \<and>
         ((\<nexists>v. v \<in> set (users s) \<and> username v = name \<and> verify (password_hash v) pw) \<longrightarrow>
            login s verify sess POST name pw = (sess, InvalidCredentials))"
proof (cases "find_user_by_username s name")
  case None
  then have "\<forall>v\<in>set (users s). username v \<noteq> name"
    by (simp add: find_user_by_username_def find_None_iff)
  then show ?thesis using login_unknown [OF None, of verify sess pw] by auto
next
  case (Some w)
  then have w: "w \<in> set (users s)" "username w = name"
    by (auto simp: find_user_by_username_def dest: find_Some_mem)
  have uniq: "v = w" if "v \<in> set (users s)" "username v = name" for v
  proof -
    from that have "find (\<lambda>y. username y = username v) (users s) = Some v"
      using assms by (intro distinct_key_find)
    with Some that show ?thesis by (simp add: find_user_by_username_def)
  qed
  note l = login_known [OF Some, of verify sess pw]
  show ?thesis
  proof (cases "verify (password_hash w) pw")
    case True
    then have "snd (login s verify sess POST name pw) = LoggedIn w" using l by simp
    moreover have "(u \<in> set (users s) \<and> username u = name \<and> verify (password_hash u) pw)
        \<longleftrightarrow> u = w"
      using True w uniq by blast
    moreover have "\<exists>v. v \<in> set (users s) \<and> username v = name \<and> verify (password_hash v) pw"
      using True w by blast
    ultimately show ?thesis by auto
  next
    case False
    then have "login s verify sess POST name pw = (sess, InvalidCredentials)" using l by simp
    moreover have "\<not> (u \<in> set (users s) \<and> username u = name \<and> verify (password_hash u) pw)"
      using False uniq by blast
    ultimately show ?thesis by simp
  qed
qed

theorem login_authenticates_witness:
  "distinct (map username (users example_db)) \<and>
   snd (login example_db example_verify anonymous POST ''alice'' ''a'') = LoggedIn alice \<and>
   login example_db example_verify anonymous POST ''alice'' ''b'' =
     (anonymous, InvalidCredentials) \<and>
   login example_db example_verify anonymous POST ''dave'' ''a'' =
     (anonymous, InvalidCredentials)"
proof -
  have d: "distinct (map username (users example_db))"
    by (simp add: example_db_def alice_def bob_def carol_def)
  have us: "set (users example_db) = {alice, bob, carol}"
    by (auto simp: example_db_def)
  have 1: "alice \<in> set (users example_db) \<and> username alice = ''alice'' \<and>
      example_verify (password_hash alice) ''a''"
    by (simp add: us) (simp add: alice_def example_verify_def)
  have 2: "\<nexists>v. v \<in> set (users example_db) \<and> username v = ''alice'' \<and>
      example_verify (password_hash v) ''b''"
    by (auto simp: us alice_def bob_def carol_def example_verify_def)
  have 3: "\<nexists>v. v \<in> set (users example_db) \<and> username v = ''dave'' \<and>
      example_verify (password_hash v) ''a''"
    by (auto simp: us alice_def bob_def carol_def example_verify_def)
  show ?thesis
    using d 1 2 3
      login_authenticates [OF d, of example_verify anonymous "''alice''" "''a''" alice]
      login_authenticates [OF d, of example_verify anonymous "''alice''" "''b''"]
      login_authenticates [OF d, of example_verify anonymous "''dave''" "''a''"]
    by blast
qed

section \<open>Messages and comments\<close>

lemma find_or_create_messages: "messages (fst (find_or_create s a b)) = messages s"
  by (simp add: find_or_create_def Let_def split: option.splits)

text \<open>
  C4, as stated, fails: the route tests \<open>not message_text\<close>, which is true of the empty
  string only. A message of one space is stored and the answer is \<open>MessageSent\<close>.
\<close>

theorem send_message_whitespace_counterexample:
  "snd (conversation example_db (session_of alice) 7 POST 2 '' '') = MessageSent \<and>
   map message_text (messages (fst (conversation example_db (session_of alice) 7 POST 2 '' '')))
     = ['' '']"
  by (simp add: conversation_def find_or_create_def find_conversation_def get_user_def
      session_of_def example_db_def init_db_def alice_def bob_def carol_def Let_def)

text \<open>
  C4, amended. For a logged-in sender and an existing other user, a POST to
  \<open>/conversation/<other>\<close> with the empty text answers \<open>EmptyMessage\<close> and leaves the
  message table as it was; with any other text (a text of blanks too) it answers
  \<open>MessageSent\<close> and appends exactly one message, which carries that text, the sender,
  the conversation found or created for the pair, and the current time.
\<close>

theorem send_message_empty_only:
  assumes "sess_user_id sess = Some cur" and "get_user s other = Some ou"
  shows "(txt = [] \<longrightarrow>
            conversation s sess now POST other txt =
              (fst (find_or_create s cur other),
               EmptyMessage (snd (find_or_create s cur other))
                 (list_messages (fst (find_or_create s cur other))
                    (snd (find_or_create s cur other)))) \<and>
            messages (fst (conversation s sess now POST other txt)) = messages s) \<and>
         (txt \<noteq> [] \<longrightarrow>
            snd (conversation s sess now POST other txt) = MessageSent \<and>
            messages (fst (conversation s sess now POST other txt)) =
              messages s @
              [\<lparr>message_id = fresh_id (map message_id (messages s)),
                message_conversation_id = conversation_id (snd (find_or_create s cur other)),
                sender_id = cur, message_text = txt, message_created_at = now\<rparr>])"
  using assms find_or_create_messages [of s cur other]
  by (cases "find_or_create s cur other") (simp add: conversation_def)

theorem send_message_empty_only_witness:
  "sess_user_id (session_of alice) = Some 1 \<and> get_user example_db 2 = Some bob \<and>
   messages (fst (conversation example_db (session_of alice) 7 POST 2 [])) = [] \<and>
   snd (conversation example_db (session_of alice) 7 POST 2 ''hi'') = MessageSent \<and>
   map message_text (messages (fst (conversation example_db (session_of alice) 7 POST 2 ''hi'')))
     = [''hi'']"
proof -
  have a: "sess_user_id (session_of alice) = Some 1" by (simp add: session_of_def alice_def)
  have b: "get_user example_db 2 = Some bob"
    by (simp add: get_user_def example_db_def alice_def bob_def)
  have m: "messages example_db = []" by (simp add: example_db_def init_db_def)
  show ?thesis
    using a b send_message_empty_only [OF a b, of "[]" 7]
      send_message_empty_only [OF a b, of "''hi''" 7]
    by (simp add: m find_or_create_messages)
qed

text \<open>
  C5, as stated, fails: the route tests \<open>not comment_text\<close> and trims nothing. A comment
  of two spaces is stored and the answer is \<open>CommentAdded\<close>.
\<close>

theorem add_comment_whitespace_counterexample:
  "snd (add_comment example_db (session_of alice) 7 1 ''  '') = CommentAdded \<and>
   map comment_text (comments (fst (add_comment example_db (session_of alice) 7 1 ''  '')))
     = [''  '']"
  by (simp add: add_comment_def get_post_def session_of_def example_db_def init_db_def
      alice_def post1_def)

text \<open>
  C5, amended. For a logged-in actor and an existing post, a POST to
  \<open>/add_comment/<post>\<close> with the empty text answers \<open>EmptyComment\<close> and changes nothing;
  with any other text (a text of blanks too) it answers \<open>CommentAdded\<close> and appends
  exactly one comment, with that text, by that actor, on that post.
\<close>

theorem add_comment_empty_only:
  assumes "sess_user_id sess = Some uid" and "get_post s pid = Some p"
  shows "(txt = [] \<longrightarrow> add_comment s sess now pid txt = (s, EmptyComment)) \<and>
         (txt \<noteq> [] \<longrightarrow>
            add_comment s sess now pid txt =
              (s\<lparr>comments := comments s @
                  [\<lparr>comment_id = fresh_id (map comment_id (comments s)), comment_text = txt,
                    comment_user_id = uid, comment_post_id = pid, comment_created_at = now\<rparr>]\<rparr>,
               CommentAdded))"
proof -
  from assms(2) have "post_id p = pid" by (auto simp: get_post_def dest: find_Some_mem)
  with assms show ?thesis by (simp add: add_comment_def)
qed

theorem add_comment_empty_only_witness:
  "sess_user_id (session_of alice) = Some 1 \<and> get_post example_db 1 = Some post1 \<and>
   add_comment example_db (session_of alice) 7 1 [] = (example_db, EmptyComment) \<and>
   snd (add_comment example_db (session_of alice) 7 1 ''nice'') = CommentAdded \<and>
   map comment_text (comments (fst (add_comment example_db (session_of alice) 7 1 ''nice'')))
     = [''nice'']"
proof -
  have a: "sess_user_id (session_of alice) = Some 1" by (simp add: session_of_def alice_def)
  have b: "get_post example_db 1 = Some post1"
    by (simp add: get_post_def example_db_def post1_def)
  have c: "comments example_db = []" by (simp add: example_db_def init_db_def)
  show ?thesis
    using a b add_comment_empty_only [OF a b, of "[]" 7]
      add_comment_empty_only [OF a b, of "''nice''" 7]
    by (simp add: c)
qed

section \<open>Likes\<close>

lemma like_post_add:
  assumes "sess_user_id sess = Some u" and "get_post s p = Some pst" and "like_rows s u p = []"
  shows "like_post s sess now p =
    (s\<lparr>likes := likes s @ [\<lparr>like_id = fresh_id (map like_id (likes s)), like_user_id = u,
        like_post_id = p, like_created_at = now\<rparr>]\<rparr>, Liked)"
proof -
  from assms(2) have "post_id pst = p" by (auto simp: get_post_def dest: find_Some_mem)
  moreover from assms(3) have "find (\<lambda>l. like_user_id l = u \<and> like_post_id l = p) (likes s) = None"
    by (simp add: like_rows_def find_None_filter)
  ultimately show ?thesis using assms(1,2) by (simp add: like_post_def)
qed

lemma like_post_remove:
  assumes "sess_user_id sess = Some u" and "get_post s p = Some pst" and "like_rows s u p = []"
  shows "like_post (s\<lparr>likes := likes s @ [\<lparr>like_id = fresh_id (map like_id (likes s)),
        like_user_id = u, like_post_id = p, like_created_at = t\<rparr>]\<rparr>) sess now p = (s, Unliked)"
proof -
  let ?new = "\<lparr>like_id = fresh_id (map like_id (likes s)), like_user_id = u,
        like_post_id = p, like_created_at = t\<rparr>"
  let ?s1 = "s\<lparr>likes := likes s @ [?new]\<rparr>"
  from assms(2) have pid: "post_id pst = p" by (auto simp: get_post_def dest: find_Some_mem)
  have gp: "get_post ?s1 p = Some pst" using assms(2) by (simp add: get_post_def)
  have f: "find (\<lambda>l. like_user_id l = u \<and> like_post_id l = p) (likes ?s1) = Some ?new"
    using assms(3) by (simp add: like_rows_def find_append_new)
  have "like_id l \<noteq> fresh_id (map like_id (likes s))" if "l \<in> set (likes s)" for l
    using fresh_id_fresh [of "like_id l" "map like_id (likes s)"] that by auto
  then have "filter (\<lambda>l. like_id l \<noteq> like_id ?new) (likes ?s1) = likes s"
    by (simp add: filter_id_conv)
  with f gp pid assms(1) show ?thesis by (simp add: like_post_def)
qed

lemma toggle_twice:
  assumes "sess_user_id sess = Some u" and "get_post s p = Some pst" and "like_rows s u p = []"
  shows "fst (like_post (fst (like_post s sess t1 p)) sess t2 p) = s"
  using like_post_add [OF assms, of t1] like_post_remove [OF assms, of t1 t2] by simp

lemma toggle_parity:
  assumes "sess_user_id sess = Some u" and "get_post s p = Some pst" and "like_rows s u p = []"
  shows "length (like_rows (toggle_like s sess p ts) u p) = (if even (length ts) then 0 else 1)"
proof (induction ts rule: induct_list012)
  case 1
  then show ?case using assms(3) by (simp add: toggle_like_def)
next
  case (2 t)
  then show ?case using like_post_add [OF assms, of t] assms(3)
    by (simp add: toggle_like_def like_rows_def)
next
  case (3 t1 t2 ts)
  have "toggle_like s sess p (t1 # t2 # ts) = toggle_like s sess p ts"
    using toggle_twice [OF assms, of t1 t2] by (simp add: toggle_like_def)
  with 3 show ?case by simp
qed

lemma like_rows_filter:
  "length (like_rows (s\<lparr>likes := filter Q (likes s)\<rparr>) u p) \<le> length (like_rows s u p)"
  by (simp add: like_rows_def length_filter_filter)

lemma like_unique_filter: "like_unique s \<Longrightarrow> like_unique (s\<lparr>likes := filter Q (likes s)\<rparr>)"
  unfolding like_unique_def using like_rows_filter [of Q s] by (meson le_trans)

lemma like_unique_same: "likes s' = likes s \<Longrightarrow> like_unique s \<Longrightarrow> like_unique s'"
  by (simp add: like_unique_def like_rows_def)

lemma like_unique_like_post: "like_unique s \<Longrightarrow> like_unique (fst (like_post s sess now pid))"
proof (cases "sess_user_id sess")
  case None
  assume "like_unique s" with None show ?thesis by (simp add: like_post_def)
next
  case (Some u)
  assume inv: "like_unique s"
  show ?thesis
  proof (cases "get_post s pid")
    case None
    with Some inv show ?thesis by (simp add: like_post_def)
  next
    case (Some pst)
    note P = this
    show ?thesis
    proof (cases "like_rows s u pid")
      case Nil
      have "length (like_rows (fst (like_post s sess now pid)) u' p') \<le> 1" for u' p'
      proof (cases "u' = u \<and> p' = pid")
        case True
        with Nil show ?thesis
          using like_post_add [OF \<open>sess_user_id sess = Some u\<close> P Nil, of now]
          by (simp add: like_rows_def)
      next
        case False
        then have "like_rows (fst (like_post s sess now pid)) u' p' = like_rows s u' p'"
          using like_post_add [OF \<open>sess_user_id sess = Some u\<close> P Nil, of now]
          by (auto simp add: like_rows_def)
        with inv show ?thesis by (simp add: like_unique_def)
      qed
      then show ?thesis by (simp add: like_unique_def)
    next
      case (Cons l ls)
      from P have pid: "post_id pst = pid" by (auto simp: get_post_def dest: find_Some_mem)
      from Cons obtain e where
        "find (\<lambda>l. like_user_id l = u \<and> like_post_id l = pid) (likes s) = Some e"
        by (cases "find (\<lambda>l. like_user_id l = u \<and> like_post_id l = pid) (likes s)")
           (auto simp: like_rows_def find_None_filter)
      with P pid \<open>sess_user_id sess = Some u\<close>
      have "fst (like_post s sess now pid) =
          s\<lparr>likes := filter (\<lambda>l. like_id l \<noteq> like_id e) (likes s)\<rparr>"
        by (simp add: like_post_def)
      with inv show ?thesis by (simp add: like_unique_filter)
    qed
  qed
qed

lemma likes_register: "likes (fst (register s h m n p)) = likes s"
  by (simp add: register_def split: http_method.splits option.splits)

lemma likes_create_post: "likes (fst (create_post s sess now m url cap)) = likes s"
  by (simp add: create_post_def split: http_method.splits option.splits)

lemma likes_follow_user: "likes (fst (follow_user s sess now name)) = likes s"
  by (simp add: follow_user_def User_follow_def split: option.splits)

lemma likes_unfollow_user: "likes (fst (unfollow_user s sess name)) = likes s"
  by (simp add: unfollow_user_def User_unfollow_def split: option.splits)

lemma likes_edit_profile: "likes (fst (edit_profile s sess m b pic)) = likes s"
  by (simp add: edit_profile_def Let_def split: http_method.splits option.splits)

lemma likes_edit_post: "likes (fst (edit_post s sess m pid url cap)) = likes s"
  by (simp add: edit_post_def split: http_method.splits option.splits)

lemma likes_add_comment: "likes (fst (add_comment s sess now pid txt)) = likes s"
  by (simp add: add_comment_def split: option.splits)

lemma likes_find_or_create: "likes (fst (find_or_create s a b)) = likes s"
  by (simp add: find_or_create_def Let_def split: option.splits)

lemma likes_conversation: "likes (fst (conversation s sess now m other txt)) = likes s"
proof (cases "sess_user_id sess")
  case None
  then show ?thesis by (simp add: conversation_def)
next
  case (Some cur)
  obtain s1 c where f: "find_or_create s cur other = (s1, c)"
    by (cases "find_or_create s cur other")
  with likes_find_or_create [of s cur other] have "likes s1 = likes s" by simp
  with Some f show ?thesis
    by (simp add: conversation_def split: http_method.splits option.splits)
qed

lemma like_unique_delete_post: "like_unique s \<Longrightarrow> like_unique (fst (delete_post s sess pid))"
proof -
  assume inv: "like_unique s"
  have "likes (fst (delete_post s sess pid)) = likes s \<or>
        (\<exists>Q. likes (fst (delete_post s sess pid)) = filter Q (likes s))"
    by (auto simp: delete_post_def split: option.splits)
  then show ?thesis
  proof
    assume "likes (fst (delete_post s sess pid)) = likes s"
    from this inv show ?thesis by (rule like_unique_same)
  next
    assume "\<exists>Q. likes (fst (delete_post s sess pid)) = filter Q (likes s)"
    then obtain Q where "likes (fst (delete_post s sess pid)) = likes (s\<lparr>likes := filter Q (likes s)\<rparr>)"
      by auto
    then show ?thesis using like_unique_filter [OF inv, of Q] by (rule like_unique_same)
  qed
qed

lemma reachable_like_unique: "reachable s \<Longrightarrow> like_unique s"
proof (induction rule: reachable.induct)
  case r_init
  then show ?case by (simp add: like_unique_def like_rows_def init_db_def)
next
  case (r_like_post s sess now pid)
  then show ?case by (simp add: like_unique_like_post)
next
  case (r_delete_post s sess pid)
  then show ?case by (simp add: like_unique_delete_post)
qed (erule like_unique_same [rotated], simp add: likes_register likes_create_post
      likes_follow_user likes_unfollow_user likes_edit_profile likes_edit_post
      likes_add_comment likes_conversation)+


text \<open>
  C2. Let a logged-in user \<open>u\<close> post to \<open>/like_post/<p>\<close>, for an existing post \<open>p\<close>,
  as many times as \<open>ts\<close> has timestamps, starting where \<open>u\<close> has no like on \<open>p\<close>.
  After an even number of requests there is no \<open>Like\<close> row of \<open>u\<close> on \<open>p\<close>, after an
  odd number exactly one. And in every reachable database no user has more than one
  \<open>Like\<close> row on the same post.
\<close>

theorem toggle_like_parity_unique:
  assumes "sess_user_id sess = Some u" and "get_post s p = Some pst" and "like_rows s u p = []"
  shows "length (like_rows (toggle_like s sess p ts) u p) = (if even (length ts) then 0 else 1) \<and>
         (\<forall>s' u' p'. reachable s' \<longrightarrow> length (like_rows s' u' p') \<le> 1)"
proof -
  have "length (like_rows s' u' p') \<le> 1" if "reachable s'" for s' u' p'
    using reachable_like_unique [OF that] by (simp add: like_unique_def)
  with toggle_parity [OF assms, of ts] show ?thesis by blast
qed

theorem toggle_like_parity_unique_witness:
  "sess_user_id (session_of alice) = Some 1 \<and> get_post example_db 1 = Some post1 \<and>
   like_rows example_db 1 1 = [] \<and>
   length (like_rows (toggle_like example_db (session_of alice) 1 [5, 6, 7]) 1 1) = 1 \<and>
   length (like_rows (toggle_like example_db (session_of alice) 1 [5, 6, 7, 8]) 1 1) = 0 \<and>
   reachable (fst (like_post (fst (create_post init_db (session_of alice) 1 POST ''a.png'' ''hi''))
                (session_of alice) 2 1)) \<and>
   length (like_rows (fst (like_post (fst (create_post init_db (session_of alice) 1 POST
                ''a.png'' ''hi'')) (session_of alice) 2 1)) 1 1) \<le> 1"
proof -
  have a: "sess_user_id (session_of alice) = Some 1" by (simp add: session_of_def alice_def)
  have b: "get_post example_db 1 = Some post1"
    by (simp add: get_post_def example_db_def post1_def)
  have c: "like_rows example_db 1 1 = []"
    by (simp add: like_rows_def example_db_def init_db_def)
  have r: "reachable (fst (like_post (fst (create_post init_db (session_of alice) 1 POST
      ''a.png'' ''hi'')) (session_of alice) 2 1))"
    by (intro reachable.intros)
  show ?thesis
    using a b c r toggle_like_parity_unique [OF a b c, of "[5, 6, 7]"]
      toggle_like_parity_unique [OF a b c, of "[5, 6, 7, 8]"]
    by simp
qed

section \<open>Conversations\<close>

lemma conv_rows_sym: "conv_rows s b a = conv_rows s a b"
  unfolding conv_rows_def by (rule filter_cong) auto

lemma find_conversation_rows: "find_conversation s a b = None \<longleftrightarrow> conv_rows s a b = []"
  by (simp add: find_conversation_def conv_rows_def find_None_filter)

lemma find_conversation_sym: "find_conversation s b a = find_conversation s a b"
  unfolding find_conversation_def by (rule find_cong) auto

lemma find_or_create_users: "users (fst (find_or_create s a b)) = users s"
  by (simp add: find_or_create_def Let_def split: option.splits)

lemma find_or_create_found:
  "find_conversation (fst (find_or_create s a b)) a b = Some (snd (find_or_create s a b))"
proof (cases "find_conversation s a b")
  case None
  then have "filter (\<lambda>c. (user1_id c = a \<and> user2_id c = b) \<or> (user1_id c = b \<and> user2_id c = a))
      (conversations s) = []"
    by (simp add: find_conversation_rows conv_rows_def)
  then show ?thesis using None
    by (simp add: find_or_create_def Let_def find_conversation_def [of "_\<lparr>conversations := _\<rparr>"]
        find_append_new)
next
  case (Some c)
  then show ?thesis by (simp add: find_or_create_def)
qed

lemma find_or_create_again:
  "find_or_create (fst (find_or_create s a b)) b a =
     (fst (find_or_create s a b), snd (find_or_create s a b))"
  using find_or_create_found [of s a b]
  by (simp add: find_or_create_def [of "fst (find_or_create s a b)"] find_conversation_sym [of _ b a])

lemma conversation_get:
  assumes "sess_user_id sess = Some cur" and "get_user s other = Some ou"
  shows "conversation s sess now GET other txt =
     (fst (find_or_create s cur other),
      ConversationPage (snd (find_or_create s cur other))
        (list_messages (fst (find_or_create s cur other)) (snd (find_or_create s cur other))))"
  using assms by (cases "find_or_create s cur other") (simp add: conversation_def)

lemma conv_unique_find_or_create:
  assumes "conv_unique s"
  shows "conv_unique (fst (find_or_create s a b))"
proof (cases "find_conversation s a b")
  case None
  then have e: "conv_rows s a b = []" by (simp add: find_conversation_rows)
  let ?c = "\<lparr>conversation_id = fresh_id (map conversation_id (conversations s)),
             user1_id = a, user2_id = b\<rparr>"
  have s1: "fst (find_or_create s a b) = s\<lparr>conversations := conversations s @ [?c]\<rparr>"
    using None by (simp add: find_or_create_def Let_def)
  have "length (conv_rows (s\<lparr>conversations := conversations s @ [?c]\<rparr>) a' b') \<le> 1" for a' b'
  proof (cases "(a = a' \<and> b = b') \<or> (a = b' \<and> b = a')")
    case True
    then have "conv_rows s a' b' = conv_rows s a b" using conv_rows_sym [of s a b] by auto
    with e True show ?thesis by (simp add: conv_rows_def)
  next
    case False
    then have "conv_rows (s\<lparr>conversations := conversations s @ [?c]\<rparr>) a' b' = conv_rows s a' b'"
      by (auto simp: conv_rows_def)
    with assms show ?thesis by (simp add: conv_unique_def)
  qed
  with s1 show ?thesis by (simp add: conv_unique_def)
next
  case (Some c)
  with assms show ?thesis by (simp add: find_or_create_def)
qed

lemma conv_unique_same: "conversations s' = conversations s \<Longrightarrow> conv_unique s \<Longrightarrow> conv_unique s'"
  by (simp add: conv_unique_def conv_rows_def)

lemma conversations_conversation:
  "conversations (fst (conversation s sess now m other txt)) = conversations s \<or>
   (\<exists>cur. conversations (fst (conversation s sess now m other txt)) =
      conversations (fst (find_or_create s cur other)))"
proof (cases "sess_user_id sess")
  case None
  then show ?thesis by (simp add: conversation_def)
next
  case (Some cur)
  obtain s1 c where f: "find_or_create s cur other = (s1, c)"
    by (cases "find_or_create s cur other")
  then have "conversations (fst (conversation s sess now m other txt)) = conversations s \<or>
    conversations (fst (conversation s sess now m other txt)) = conversations (fst (find_or_create s cur other))"
    using Some by (simp add: conversation_def split: http_method.splits option.splits)
  then show ?thesis by blast
qed

lemma conv_unique_conversation:
  assumes "conv_unique s"
  shows "conv_unique (fst (conversation s sess now m other txt))"
  using conversations_conversation [of s sess now m other "txt"]
proof
  assume "conversations (fst (conversation s sess now m other txt)) = conversations s"
  from this assms show ?thesis by (rule conv_unique_same)
next
  assume "\<exists>cur. conversations (fst (conversation s sess now m other txt)) =
      conversations (fst (find_or_create s cur other))"
  then obtain cur where "conversations (fst (conversation s sess now m other txt)) =
      conversations (fst (find_or_create s cur other))" ..
  from this conv_unique_find_or_create [OF assms] show ?thesis by (rule conv_unique_same)
qed

lemma convs_register: "conversations (fst (register s h m n p)) = conversations s"
  by (simp add: register_def split: http_method.splits option.splits)

lemma convs_create_post: "conversations (fst (create_post s sess now m url cap)) = conversations s"
  by (simp add: create_post_def split: http_method.splits option.splits)

lemma convs_follow_user: "conversations (fst (follow_user s sess now name)) = conversations s"
  by (simp add: follow_user_def User_follow_def split: option.splits)

lemma convs_unfollow_user: "conversations (fst (unfollow_user s sess name)) = conversations s"
  by (simp add: unfollow_user_def User_unfollow_def split: option.splits)

lemma convs_edit_profile: "conversations (fst (edit_profile s sess m b pic)) = conversations s"
  by (simp add: edit_profile_def Let_def split: http_method.splits option.splits)

lemma convs_edit_post: "conversations (fst (edit_post s sess m pid url cap)) = conversations s"
  by (simp add: edit_post_def split: http_method.splits option.splits)

lemma convs_delete_post: "conversations (fst (delete_post s sess pid)) = conversations s"
  by (simp add: delete_post_def split: option.splits)

lemma convs_add_comment: "conversations (fst (add_comment s sess now pid txt)) = conversations s"
  by (simp add: add_comment_def split: option.splits)

lemma convs_like_post: "conversations (fst (like_post s sess now pid)) = conversations s"
  by (simp add: like_post_def split: option.splits)

lemma reachable_conv_unique: "reachable s \<Longrightarrow> conv_unique s"
proof (induction rule: reachable.induct)
  case r_init
  then show ?case by (simp add: conv_unique_def conv_rows_def init_db_def)
next
  case (r_conversation s sess now m other msg)
  then show ?case by (simp add: conv_unique_conversation)
qed (erule conv_unique_same [rotated], simp add: convs_register convs_create_post
      convs_follow_user convs_unfollow_user convs_edit_profile convs_edit_post
      convs_delete_post convs_add_comment convs_like_post)+

text \<open>
  C3. Let \<open>a\<close> and \<open>b\<close> be existing users, each logged in. When \<open>a\<close> opens
  \<open>/conversation/<b>\<close> and then \<open>b\<close> opens \<open>/conversation/<a>\<close>, both are shown the same
  conversation row, and the second request creates nothing. And in every reachable
  database at most one conversation row joins two given users, whichever of them is
  stored as \<open>user1_id\<close>.
\<close>

theorem conversation_shared_and_unique:
  assumes "sess_user_id sa = Some a" and "sess_user_id sb = Some b"
    and "get_user s a = Some ua" and "get_user s b = Some ub"
  shows "conversation s sa t1 GET b x =
           (fst (find_or_create s a b),
            ConversationPage (snd (find_or_create s a b))
              (list_messages (fst (find_or_create s a b)) (snd (find_or_create s a b)))) \<and>
         conversation (fst (find_or_create s a b)) sb t2 GET a y =
           (fst (find_or_create s a b),
            ConversationPage (snd (find_or_create s a b))
              (list_messages (fst (find_or_create s a b)) (snd (find_or_create s a b)))) \<and>
         (\<forall>s' a' b'. reachable s' \<longrightarrow> length (conv_rows s' a' b') \<le> 1)"
proof -
  let ?s1 = "fst (find_or_create s a b)"
  have 1: "conversation s sa t1 GET b x = (?s1, ConversationPage (snd (find_or_create s a b))
      (list_messages ?s1 (snd (find_or_create s a b))))"
    using assms(1,4) by (rule conversation_get)
  have u: "get_user ?s1 a = Some ua"
    using assms(3) by (simp add: get_user_def find_or_create_users)
  have 2: "conversation ?s1 sb t2 GET a y = (?s1, ConversationPage (snd (find_or_create s a b))
      (list_messages ?s1 (snd (find_or_create s a b))))"
    using conversation_get [OF assms(2) u, of t2 y] by (simp add: find_or_create_again)
  have 3: "length (conv_rows s' a' b') \<le> 1" if "reachable s'" for s' a' b'
    using reachable_conv_unique [OF that] by (simp add: conv_unique_def)
  from 1 2 3 show ?thesis by blast
qed


theorem conversation_shared_and_unique_witness:
  "sess_user_id (session_of alice) = Some 1 \<and> sess_user_id (session_of bob) = Some 2 \<and>
   get_user example_db 1 = Some alice \<and> get_user example_db 2 = Some bob \<and>
   conversation (fst (conversation example_db (session_of alice) 5 GET 2 []))
       (session_of bob) 6 GET 1 [] =
     conversation example_db (session_of alice) 5 GET 2 [] \<and>
   reachable (fst (conversation (fst (register init_db (\<lambda>p. p) POST ''bob'' ''pw''))
                (session_of alice) 3 GET 1 [])) \<and>
   length (conv_rows (fst (conversation (fst (register init_db (\<lambda>p. p) POST ''bob'' ''pw''))
                (session_of alice) 3 GET 1 [])) 1 1) \<le> 1"
proof -
  have a: "sess_user_id (session_of alice) = Some 1" by (simp add: session_of_def alice_def)
  have b: "sess_user_id (session_of bob) = Some 2" by (simp add: session_of_def bob_def)
  have c: "get_user example_db 1 = Some alice"
    by (simp add: get_user_def example_db_def alice_def)
  have d: "get_user example_db 2 = Some bob"
    by (simp add: get_user_def example_db_def alice_def bob_def)
  have r: "reachable (fst (conversation (fst (register init_db (\<lambda>p. p) POST ''bob'' ''pw''))
      (session_of alice) 3 GET 1 []))"
    by (intro reachable.intros)
  show ?thesis
    using a b c d r conversation_shared_and_unique [OF a b c d, of 5 "[]" 6 "[]"]
    by simp
qed

section \<open>Search\<close>

lemma like_literal_prefix:
  assumes "list_all (\<lambda>c. c \<noteq> CHR ''%'' \<and> c \<noteq> CHR ''_'' \<and> Some c \<noteq> esc) q"
  shows "like_match esc (q @ ps) s \<longleftrightarrow> (\<exists>r. s = q @ r \<and> like_match esc ps r)"
  using assms
proof (induction q arbitrary: s)
  case Nil
  then show ?case by simp
next
  case (Cons c q)
  then show ?case by (cases s) auto
qed

lemma like_percent_all: "esc \<noteq> Some CHR ''%'' \<Longrightarrow> like_match esc ''%'' s"
  by (induction s) auto

lemma like_percent_skip:
  assumes "esc \<noteq> Some CHR ''%''"
  shows "like_match esc (CHR ''%'' # ps) s \<longleftrightarrow> (\<exists>pre suf. s = pre @ suf \<and> like_match esc ps suf)"
proof (induction s)
  case Nil
  then show ?case using assms by auto
next
  case (Cons c cs)
  have "(\<exists>pre suf. c # cs = pre @ suf \<and> like_match esc ps suf) \<longleftrightarrow>
        like_match esc ps (c # cs) \<or> (\<exists>pre suf. cs = pre @ suf \<and> like_match esc ps suf)"
    by (auto simp: Cons_eq_append_conv)
  with Cons assms show ?case by auto
qed

lemma like_substring:
  assumes "esc \<noteq> Some CHR ''%''"
    and "list_all (\<lambda>c. c \<noteq> CHR ''%'' \<and> c \<noteq> CHR ''_'' \<and> Some c \<noteq> esc) q"
  shows "like_match esc (CHR ''%'' # q @ ''%'') s \<longleftrightarrow> sublist q s"
proof -
  have "like_match esc (CHR ''%'' # q @ ''%'') s \<longleftrightarrow>
        (\<exists>pre suf. s = pre @ suf \<and> (\<exists>r. suf = q @ r \<and> like_match esc ''%'' r))"
    using like_percent_skip [OF assms(1)] like_literal_prefix [OF assms(2)] by simp
  also have "\<dots> \<longleftrightarrow> (\<exists>pre r. s = pre @ q @ r)"
    using like_percent_all [OF assms(1)] by auto
  finally show ?thesis by (simp add: sublist_def)
qed

lemma lower_char_percent: "lower_char CHR ''%'' = CHR ''%''"
  by (simp add: lower_char_def)

lemma ilike_contains:
  assumes "esc \<noteq> Some CHR ''%''" and "literal esc q"
  shows "ilike esc s (CHR ''%'' # q @ ''%'') \<longleftrightarrow> contains_ci q s"
  using like_substring [OF assms(1), of "map lower_char q" "map lower_char s"] assms(2)
  by (simp add: ilike_def contains_ci_def literal_def lower_char_percent)

lemma order_desc_sorted: "sorted_wrt (\<lambda>x y. x \<ge> y) (map k (order_desc k xs))"
proof -
  have "sorted_wrt (\<lambda>x y. x \<ge> y) (rev (map k (sort_key k xs)))"
    by (simp add: sorted_wrt_rev)
  then show ?thesis by (simp add: order_desc_def rev_map)
qed

text \<open>
  C8, as stated, fails: the query is pasted into the \<open>LIKE\<close> pattern unescaped, so
  \<open>_\<close> in it matches any one character. The query \<open>_\<close> returns every user and every
  captioned post, none of which contains an underscore.
\<close>

theorem search_wildcard_counterexample:
  "search example_db None ''_'' = SearchResults [alice, bob, carol] [post2, post1] \<and>
   \<not> contains_ci ''_'' (username alice) \<and> caption post2 = Some ''dogs'' \<and>
   \<not> contains_ci ''_'' ''dogs''"
  by code_simp

text \<open>
  C8, amended. An empty query renders the index page with no posts and no users. For a
  non-empty query free of the pattern characters \<open>%\<close> and \<open>_\<close> and of the backend's
  escape character, the users returned are exactly those whose username contains the
  query as a substring, letter case ignored, and the posts returned are exactly those
  whose caption does, newest first. Nothing is said of a query with a pattern character.
\<close>

theorem search_substring:
  assumes "esc \<noteq> Some CHR ''%''" and "literal esc q"
  shows "search s esc [] = IndexPage [] \<and>
         (q \<noteq> [] \<longrightarrow>
            result_users (search s esc q) = filter (\<lambda>u. contains_ci q (username u)) (users s) \<and>
            result_posts (search s esc q) =
              order_desc post_created_at
                (filter (\<lambda>p. case caption p of None \<Rightarrow> False | Some c \<Rightarrow> contains_ci q c)
                   (posts s)) \<and>
            sorted_wrt (\<lambda>x y. x \<ge> y) (map post_created_at (result_posts (search s esc q))))"
proof -
  have 1: "search s esc [] = IndexPage []" by (simp add: search_def)
  have 2: "result_users (search s esc q) = filter (\<lambda>u. contains_ci q (username u)) (users s)"
    if "q \<noteq> []"
    using that ilike_contains [OF assms] by (simp add: search_def)
  have e: "filter (\<lambda>p. case caption p of None \<Rightarrow> False
                         | Some c \<Rightarrow> ilike esc c (''%'' @ q @ ''%'')) (posts s) =
           filter (\<lambda>p. case caption p of None \<Rightarrow> False | Some c \<Rightarrow> contains_ci q c) (posts s)"
    by (rule filter_cong) (auto split: option.splits simp: ilike_contains [OF assms])
  have 3: "result_posts (search s esc q) =
      order_desc post_created_at
        (filter (\<lambda>p. case caption p of None \<Rightarrow> False | Some c \<Rightarrow> contains_ci q c) (posts s))"
    if "q \<noteq> []"
    using that by (simp add: search_def e)
  from 1 2 3 show ?thesis by (simp add: order_desc_sorted)
qed

theorem search_substring_witness:
  "None \<noteq> Some CHR ''%'' \<and> literal None ''CAT'' \<and>
   search example_db None [] = IndexPage [] \<and>
   result_users (search example_db None ''CAT'') = [] \<and>
   result_posts (search example_db None ''CAT'') = [post1] \<and>
   result_users (search example_db None ''c'') = [alice, carol]"
proof -
  have a: "None \<noteq> Some CHR ''%''" by simp
  have b: "literal None ''CAT''" by code_simp
  have c: "literal None ''c''" by code_simp
  have e1: "filter (\<lambda>u. contains_ci ''CAT'' (username u)) (users example_db) = []"
    by code_simp
  have e2: "order_desc post_created_at
      (filter (\<lambda>p. case caption p of None \<Rightarrow> False | Some c \<Rightarrow> contains_ci ''CAT'' c)
         (posts example_db)) = [post1]"
    by code_simp
  have e3: "filter (\<lambda>u. contains_ci ''c'' (username u)) (users example_db) = [alice, carol]"
    by code_simp
  from search_substring [OF a b, of example_db] search_substring [OF a c, of example_db]
  show ?thesis unfolding e1 e2 e3 using a b by simp
qed

section \<open>The feed\<close>

text \<open>
  \<open>get_followed_posts\<close> itself returns the posts of a user and of those the user
  follows, each once, newest first.
\<close>

lemma get_followed_posts_set:
  "set (get_followed_posts s u) =
     {p \<in> set (posts s). post_user_id p = user_id u \<or>
        (\<exists>f\<in>set (follows s). follower_id f = user_id u \<and> followed_id f = post_user_id p)}"
  by (auto simp: get_followed_posts_def order_desc_def)

lemma get_followed_posts_distinct: "distinct (get_followed_posts s u)"
  by (simp add: get_followed_posts_def order_desc_def)

lemma get_followed_posts_sorted:
  "sorted_wrt (\<lambda>x y. x \<ge> y) (map post_created_at (get_followed_posts s u))"
  by (simp add: get_followed_posts_def Let_def order_desc_sorted)

lemma index_all_posts:
  "sess_user_id sess = Some u \<Longrightarrow>
   index s sess page = IndexPage (paginate page 10 (order_desc post_created_at (posts s)))"
  by (simp add: index_def)

text \<open>
  C1. The feed route \<open>index\<close> does not call \<open>get_followed_posts\<close>: it pages through
  every post of the database. Here alice follows bob only, and her feed shows post 2,
  written by carol, which \<open>get_followed_posts\<close> leaves out.
\<close>

theorem index_shows_unfollowed_author:
  "index example_db (session_of alice) 1 = IndexPage [post3, post2, post1] \<and>
   post_user_id post2 = user_id carol \<and> user_id carol \<noteq> user_id alice \<and>
   \<not> is_following example_db alice carol \<and>
   get_followed_posts example_db alice = [post3, post1]"
  by code_simp

section \<open>Declared keys in reachable databases\<close>

text \<open>
  Every route looks a key up before it inserts a row, so in a reachable database user
  ids, usernames and follow edges are unique. These are the uniqueness hypotheses of the
  theorems on following and on logging in.
\<close>

lemma keys_unique_same:
  "users s' = users s \<Longrightarrow> follows s' = follows s \<Longrightarrow> keys_unique s \<Longrightarrow> keys_unique s'"
  by (simp add: keys_unique_def)

lemma keys_unique_register:
  assumes "keys_unique s"
  shows "keys_unique (fst (register s h m n p))"
proof (cases "m = POST \<and> find_user_by_username s n = None")
  case True
  then have "\<forall>u\<in>set (users s). username u \<noteq> n"
    by (simp add: find_user_by_username_def find_None_iff)
  moreover have "\<forall>u\<in>set (users s). user_id u \<noteq> fresh_id (map user_id (users s))"
    using fresh_id_fresh [of _ "map user_id (users s)"] by fastforce
  ultimately show ?thesis using True assms
    by (auto simp: register_def keys_unique_def)
next
  case False
  then have "fst (register s h m n p) = s"
    by (auto simp: register_def split: http_method.splits option.splits)
  with assms show ?thesis by simp
qed

lemma keys_unique_edit_profile:
  assumes "keys_unique s"
  shows "keys_unique (fst (edit_profile s sess m b pic))"
proof (cases "m = POST \<and> load_logged_in_user s sess \<noteq> None")
  case True
  then obtain u where u: "load_logged_in_user s sess = Some u" by auto
  note i = logged_in_user_id [OF u]
  let ?u = "(if pic \<noteq> [] then u\<lparr>bio := Some b, profile_picture := Some pic\<rparr>
             else u\<lparr>bio := Some b\<rparr>)"
  have e: "fst (edit_profile s sess m b pic) =
      s\<lparr>users := map (\<lambda>x. if user_id x = user_id u then ?u else x) (users s)\<rparr>"
    using True u i by (simp add: edit_profile_def Let_def)
  from i have "u \<in> set (users s)" by (auto simp: get_user_def dest: find_Some_mem)
  then have only: "x = u" if "x \<in> set (users s)" "user_id x = user_id u" for x
    using that assms by (auto simp: keys_unique_def dest: inj_on_eq_iff [OF iffD1 [OF distinct_map, THEN conjunct2]])
  have 1: "map user_id (map (\<lambda>x. if user_id x = user_id u then ?u else x) (users s)) =
      map user_id (users s)"
    by (auto simp: comp_def)
  have 2: "map username (map (\<lambda>x. if user_id x = user_id u then ?u else x) (users s)) =
      map username (users s)"
    using only by (auto simp: comp_def)
  from assms show ?thesis by (simp add: e keys_unique_def 1 2 del: map_map)
next
  case False
  then have "fst (edit_profile s sess m b pic) = s"
    by (auto simp: edit_profile_def split: http_method.splits option.splits)
  with assms show ?thesis by simp
qed

lemma keys_unique_User_follow:
  assumes "keys_unique s"
  shows "keys_unique (User_follow s now ua ub)"
proof (cases "is_following s ua ub")
  case True
  with assms show ?thesis by (simp add: User_follow_def)
next
  case False
  then have "edges s (user_id ua) (user_id ub) = []" by (simp add: is_following_edges)
  then have "(user_id ua, user_id ub) \<notin> follow_key ` set (follows s)"
    by (auto simp: edges_key filter_empty_conv)
  with False assms show ?thesis by (simp add: User_follow_def keys_unique_def follow_key_def)
qed

lemma keys_unique_User_unfollow:
  assumes "keys_unique s"
  shows "keys_unique (User_unfollow s ua ub)"
  using assms
  by (auto simp: User_unfollow_def keys_unique_def distinct_map_filter split: option.splits)

lemma keys_unique_follow_user: "keys_unique s \<Longrightarrow> keys_unique (fst (follow_user s sess now name))"
  by (auto simp: follow_user_def keys_unique_User_follow split: option.splits)

lemma keys_unique_unfollow_user: "keys_unique s \<Longrightarrow> keys_unique (fst (unfollow_user s sess name))"
  by (auto simp: unfollow_user_def keys_unique_User_unfollow split: option.splits)

lemma keys_create_post:
  "users (fst (create_post s sess now m url cap)) = users s \<and>
   follows (fst (create_post s sess now m url cap)) = follows s"
  by (simp add: create_post_def split: http_method.splits option.splits)

lemma keys_edit_post:
  "users (fst (edit_post s sess m pid url cap)) = users s \<and>
   follows (fst (edit_post s sess m pid url cap)) = follows s"
  by (simp add: edit_post_def split: http_method.splits option.splits)

lemma keys_delete_post:
  "users (fst (delete_post s sess pid)) = users s \<and>
   follows (fst (delete_post s sess pid)) = follows s"
  by (simp add: delete_post_def split: option.splits)

lemma keys_add_comment:
  "users (fst (add_comment s sess now pid c)) = users s \<and>
   follows (fst (add_comment s sess now pid c)) = follows s"
  by (simp add: add_comment_def split: option.splits)

lemma keys_like_post:
  "users (fst (like_post s sess now pid)) = users s \<and>
   follows (fst (like_post s sess now pid)) = follows s"
  by (simp add: like_post_def split: option.splits)

lemma keys_find_or_create:
  "users (fst (find_or_create s a b)) = users s \<and> follows (fst (find_or_create s a b)) = follows s"
  by (simp add: find_or_create_def Let_def split: option.splits)

lemma keys_conversation:
  "users (fst (conversation s sess now m other c)) = users s \<and>
   follows (fst (conversation s sess now m other c)) = follows s"
proof (cases "sess_user_id sess")
  case None
  then show ?thesis by (simp add: conversation_def)
next
  case (Some cur)
  obtain s1 cv where f: "find_or_create s cur other = (s1, cv)"
    by (cases "find_or_create s cur other")
  with keys_find_or_create [of s cur other] have "users s1 = users s \<and> follows s1 = follows s"
    by simp
  with Some f show ?thesis
    by (simp add: conversation_def split: http_method.splits option.splits)
qed

lemma reachable_keys_unique: "reachable s \<Longrightarrow> keys_unique s"
proof (induction rule: reachable.induct)
  case r_init
  then show ?case by (simp add: keys_unique_def init_db_def)
next
  case (r_register s gen_hash m name password)
  then show ?case by (simp add: keys_unique_register)
next
  case (r_follow s sess now name)
  then show ?case by (simp add: keys_unique_follow_user)
next
  case (r_unfollow s sess name)
  then show ?case by (simp add: keys_unique_unfollow_user)
next
  case (r_edit_profile s sess m b pic)
  then show ?case by (simp add: keys_unique_edit_profile)
qed (erule keys_unique_same [rotated 2], simp_all add: keys_create_post keys_edit_post
      keys_delete_post keys_add_comment keys_like_post keys_conversation)+

end
